theory Spec2Isabelle
  imports Main "HOL-Library.Word" "HOL-Library.Sublist"
begin

section \<open>The generic linked List, its iterator, and the Fibonacci generator\<close>

text \<open>
  The development embeds the two teaching programs of \<^verbatim>\<open>src/26_errors.go\<close> that
  define the generic singly-linked \<^verbatim>\<open>List[T]\<close>: the \<^emph>\<open>generics\<close> example
  (\<^verbatim>\<open>Push\<close>, \<^verbatim>\<open>AllElements\<close>) and the \<^emph>\<open>iterators\<close> example (\<^verbatim>\<open>Push\<close>,
  \<^verbatim>\<open>All\<close>, \<^verbatim>\<open>genFib\<close>).

  Go pointers are modelled by an explicit store. A pointer is \<open>None\<close> (\<^verbatim>\<open>nil\<close>) or
  \<open>Some a\<close> for an address \<open>a\<close>. Go is memory safe, so every non-nil pointer refers to
  an object: the store is a total function from addresses to objects, and the
  allocation counter \<open>allocated\<close> separates the addresses handed out so far from the
  ones \<^verbatim>\<open>&element[T]{...}\<close> will return next.
\<close>

subsection \<open>Data model\<close>

type_synonym ref = nat

text \<open>\<^verbatim>\<open>type element[T any] struct { next *element[T]; val T }\<close>
  (the field \<^verbatim>\<open>next\<close> is written \<open>nxt\<close>).\<close>

record 'a element =
  nxt :: "ref option"
  val :: 'a

text \<open>\<^verbatim>\<open>type List[T any] struct { head, tail *element[T] }\<close>\<close>

record List =
  head :: "ref option"
  tail :: "ref option"

text \<open>The zero value \<^verbatim>\<open>List[T]{}\<close>: both pointers are \<^verbatim>\<open>nil\<close>.\<close>

definition zero_List :: List where
  "zero_List = \<lparr>head = None, tail = None\<rparr>"

text \<open>
  The store: the \<^verbatim>\<open>List\<close> headers (methods take \<^verbatim>\<open>lst *List[T]\<close>, so a list is
  named by the address of its header), the \<^verbatim>\<open>element\<close> nodes, and the allocation
  counter of the nodes.
\<close>

record 'a memory =
  headers :: "ref \<Rightarrow> List"
  cells :: "ref \<Rightarrow> 'a element"
  allocated :: nat

text \<open>A memory in which no node has been allocated and every header is the zero
  value; \<open>d\<close> pads the unused cells.\<close>

definition empty_memory :: "'a \<Rightarrow> 'a memory" where
  "empty_memory d =
     \<lparr>headers = (\<lambda>_. zero_List), cells = (\<lambda>_. \<lparr>nxt = None, val = d\<rparr>), allocated = 0\<rparr>"

subsection \<open>Push\<close>

text \<open>\<^verbatim>\<open>&element[T]{val: v}\<close>: a fresh node whose \<^verbatim>\<open>next\<close> is \<^verbatim>\<open>nil\<close>.\<close>

definition new_element :: "'a \<Rightarrow> 'a memory \<Rightarrow> ref \<times> 'a memory" where
  "new_element v m =
     (allocated m,
      m\<lparr>cells := (cells m)(allocated m := \<lparr>nxt = None, val = v\<rparr>),
        allocated := Suc (allocated m)\<rparr>)"

text \<open>The three assignments of \<^verbatim>\<open>Push\<close>: \<^verbatim>\<open>lst.head = p\<close>, \<^verbatim>\<open>lst.tail = p\<close> and
  \<^verbatim>\<open>a.next = p\<close>.\<close>

definition set_head :: "ref \<Rightarrow> ref option \<Rightarrow> 'a memory \<Rightarrow> 'a memory" where
  "set_head lst p m = m\<lparr>headers := (headers m)(lst := (headers m lst)\<lparr>head := p\<rparr>)\<rparr>"

definition set_tail :: "ref \<Rightarrow> ref option \<Rightarrow> 'a memory \<Rightarrow> 'a memory" where
  "set_tail lst p m = m\<lparr>headers := (headers m)(lst := (headers m lst)\<lparr>tail := p\<rparr>)\<rparr>"

definition set_next :: "ref \<Rightarrow> ref option \<Rightarrow> 'a memory \<Rightarrow> 'a memory" where
  "set_next a p m = m\<lparr>cells := (cells m)(a := (cells m a)\<lparr>nxt := p\<rparr>)\<rparr>"

text \<open>
  \<^verbatim>\<open>
  func (lst *List[T]) Push(v T) {
      if lst.tail == nil {
          lst.head = &element[T]{val: v}
          lst.tail = lst.head
      } else {
          lst.tail.next = &element[T]{val: v}
          lst.tail = lst.tail.next
      }
  }
  \<close>
  In the second branch \<^verbatim>\<open>lst.tail\<close> is read twice; neither the allocation nor the
  store to the node's \<^verbatim>\<open>next\<close> writes the header, so both reads give \<open>t\<close>. The
  right-hand sides \<^verbatim>\<open>lst.head\<close> and \<^verbatim>\<open>lst.tail.next\<close> are read back from the
  store after the first assignment, as the code does.
\<close>

definition Push :: "ref \<Rightarrow> 'a \<Rightarrow> 'a memory \<Rightarrow> 'a memory" where
  "Push lst v m =
     (case tail (headers m lst) of
        None \<Rightarrow>
          (case new_element v m of (p, m1) \<Rightarrow>
             let m2 = set_head lst (Some p) m1
             in set_tail lst (head (headers m2 lst)) m2)
      | Some t \<Rightarrow>
          (case new_element v m of (p, m1) \<Rightarrow>
             let m2 = set_next t (Some p) m1
             in set_tail lst (nxt (cells m2 t)) m2))"

text \<open>A sequence of calls \<^verbatim>\<open>lst.Push(v1); ...; lst.Push(vn)\<close>.\<close>

fun Pushes :: "ref \<Rightarrow> 'a list \<Rightarrow> 'a memory \<Rightarrow> 'a memory" where
  "Pushes lst [] m = m"
| "Pushes lst (v # vs) m = Pushes lst vs (Push lst v m)"

subsection \<open>AllElements\<close>

text \<open>
  \<^verbatim>\<open>
  func (lst *List[T]) AllElements() []T {
      var elems []T
      for e := lst.head; e != nil; e = e.next {
          elems = append(elems, e.val)
      }
      return elems
  }
  \<close>
  The loop follows \<^verbatim>\<open>next\<close> pointers and does not return on a cyclic store, so it is
  a partial function: \<open>None\<close> is ``does not return''.
\<close>

partial_function (option) AllElements_loop ::
  "(ref \<Rightarrow> 'a element) \<Rightarrow> ref option \<Rightarrow> 'a list \<Rightarrow> 'a list option" where
  "AllElements_loop h e elems =
     (case e of
        None \<Rightarrow> Some elems
      | Some a \<Rightarrow> AllElements_loop h (nxt (h a)) (elems @ [val (h a)]))"

definition AllElements :: "ref \<Rightarrow> 'a memory \<Rightarrow> 'a list option" where
  "AllElements lst m = AllElements_loop (cells m) (head (headers m lst)) []"

subsection \<open>Iterators\<close>

text \<open>
  A consumer \<^verbatim>\<open>yield func(V) bool\<close> is an arbitrary Go function: besides returning
  the ``continue'' flag it may change the store (it can capture \<^verbatim>\<open>lst\<close>) and its own
  variables. It is modelled as a function from the value and the world, a pair of the
  store \<open>'m\<close> and the consumer's private state \<open>'c\<close>, to the flag and the new world.
  An iterator \<^verbatim>\<open>iter.Seq[V]\<close> is a function \<^verbatim>\<open>func(yield func(V) bool)\<close>; it returns
  the world it leaves, or \<open>None\<close> when it does not return.
\<close>

type_synonym ('v, 'm, 'c) yield = "'v \<Rightarrow> 'm \<times> 'c \<Rightarrow> bool \<times> 'm \<times> 'c"

type_synonym ('v, 'm, 'c) seq = "('v, 'm, 'c) yield \<Rightarrow> 'm \<times> 'c \<Rightarrow> ('m \<times> 'c) option"

text \<open>
  \<^verbatim>\<open>
  func (lst *List[T]) All() iter.Seq[T] {
      return func(yield func(T) bool) {
          for e := lst.head; e != nil; e = e.next {
              if !yield(e.val) {
                  return
              }
          }
      }
  }
  \<close>
  \<^verbatim>\<open>e.val\<close> is read before the call of \<^verbatim>\<open>yield\<close> and \<^verbatim>\<open>e.next\<close> after it, from
  the store the consumer leaves (the name \<open>All\<close> is taken by the
  quantifier of HOL, so the method is \<open>List_All\<close>). The closure captures the pointer \<^verbatim>\<open>lst\<close> only:
  \<open>List_All lst\<close> does not depend on a store, \<^verbatim>\<open>lst.head\<close> is read when the iterator
  is driven.
\<close>

partial_function (option) All_loop ::
  "('a, 'a memory, 'c) yield \<Rightarrow> ref option \<Rightarrow> 'a memory \<times> 'c \<Rightarrow> ('a memory \<times> 'c) option" where
  "All_loop yield e w =
     (case e of
        None \<Rightarrow> Some w
      | Some a \<Rightarrow>
          (case yield (val (cells (fst w) a)) w of (ok, w') \<Rightarrow>
             if \<not> ok then Some w'
             else All_loop yield (nxt (cells (fst w') a)) w'))"

definition List_All :: "ref \<Rightarrow> ('a, 'a memory, 'c) seq" where
  "List_All lst = (\<lambda>yield w. All_loop yield (head (headers (fst w) lst)) w)"

text \<open>
  \<^verbatim>\<open>
  func genFib() iter.Seq[int] {
      return func(yield func(int) bool) {
          a, b := 1, 1
          for {
              if !yield(a) {
                  return
              }
              a, b = b, a+b
          }
      }
  }
  \<close>
  Go's \<^verbatim>\<open>int\<close> is a signed machine integer of the platform's word size (64 bits on
  amd64 and arm64, 32 bits on 386 and arm); \<^verbatim>\<open>a+b\<close> wraps around silently. The
  accumulators are words of length \<open>'w\<close>, read as signed by \<open>sint\<close>.
\<close>

partial_function (option) genFib_loop ::
  "('w::len word, 'm, 'c) yield \<Rightarrow> 'w word \<Rightarrow> 'w word \<Rightarrow> 'm \<times> 'c \<Rightarrow> ('m \<times> 'c) option" where
  "genFib_loop yield a b w =
     (case yield a w of (ok, w') \<Rightarrow>
        if \<not> ok then Some w'
        else genFib_loop yield b (a + b) w')"

definition genFib :: "('w::len word, 'm, 'c) seq" where
  "genFib = (\<lambda>yield w. genFib_loop yield 1 1 w)"

subsection \<open>The collector and observed consumers\<close>

text \<open>
  Modelled from the spec: \<^verbatim>\<open>slices.Collect\<close> belongs to the Go standard library and
  is not part of the sources. The spec's Eager Collector ``drives \<^verbatim>\<open>produce\<close> with a
  consumer that always returns \<^verbatim>\<open>true\<close> and appends each value''. The consumer's
  private state is the slice built so far; the result is the final slice
  (\<open>Collect\<close> is the set comprehension of HOL, so the function is \<open>slices_Collect\<close>).
\<close>

definition appender :: "('v, 'm, 'v list) yield" where
  "appender v w = (True, fst w, snd w @ [v])"

definition slices_Collect :: "('v, 'm, 'v list) seq \<Rightarrow> 'm \<Rightarrow> 'v list option" where
  "slices_Collect sq m = map_option snd (sq appender (m, []))"

text \<open>
  To speak about the invocations of a consumer, the consumer is wrapped: \<open>observe yield\<close>
  behaves as \<open>yield\<close> and appends every invocation, the value passed and the flag
  returned, to a log kept beside the consumer's private state. \<open>calls\<close> reads the log.
\<close>

definition observe :: "('v, 'm, 'c) yield \<Rightarrow> ('v, 'm, 'c \<times> ('v \<times> bool) list) yield" where
  "observe yield v w =
     (case w of (m, c, log) \<Rightarrow>
        (case yield v (m, c) of (ok, m', c') \<Rightarrow> (ok, m', c', log @ [(v, ok)])))"

definition calls :: "'m \<times> 'c \<times> 'l \<Rightarrow> 'l" where
  "calls w = snd (snd w)"

text \<open>The consumer that stops at its \<open>n\<close>-th invocation: it counts its invocations
  and returns \<^verbatim>\<open>true\<close> until the \<open>n\<close>-th, where it returns \<^verbatim>\<open>false\<close>.\<close>

definition count_to :: "nat \<Rightarrow> ('v, 'm, nat) yield" where
  "count_to n v w = (Suc (snd w) < n, fst w, Suc (snd w))"

subsection \<open>Bounded prefixes of a run\<close>

text \<open>
  The first \<open>n\<close> iterations of each iterator's loop. The result says whether the
  iterator has returned within them, or is still running with the loop variables
  shown, and gives the world reached. These functions are total; they are the two
  loops above with a bound on the number of iterations, and serve to state what
  happens during a run, also one that never returns.
\<close>

datatype ('s, 'w) run = Returned 'w | Running 's 'w

fun world_of :: "('s, 'w) run \<Rightarrow> 'w" where
  "world_of (Returned w) = w"
| "world_of (Running s w) = w"

fun All_steps ::
  "nat \<Rightarrow> ('a, 'a memory, 'c) yield \<Rightarrow> ref option \<Rightarrow> 'a memory \<times> 'c
     \<Rightarrow> (ref option, 'a memory \<times> 'c) run" where
  "All_steps 0 yield e w = Running e w"
| "All_steps (Suc n) yield e w =
     (case e of
        None \<Rightarrow> Returned w
      | Some a \<Rightarrow>
          (case yield (val (cells (fst w) a)) w of (ok, w') \<Rightarrow>
             if \<not> ok then Returned w'
             else All_steps n yield (nxt (cells (fst w') a)) w'))"

definition All_prefix ::
  "nat \<Rightarrow> ref \<Rightarrow> ('a, 'a memory, 'c) yield \<Rightarrow> 'a memory \<times> 'c
     \<Rightarrow> (ref option, 'a memory \<times> 'c) run" where
  "All_prefix n lst yield w = All_steps n yield (head (headers (fst w) lst)) w"

fun genFib_steps ::
  "nat \<Rightarrow> ('w::len word, 'm, 'c) yield \<Rightarrow> 'w word \<Rightarrow> 'w word \<Rightarrow> 'm \<times> 'c
     \<Rightarrow> ('w word \<times> 'w word, 'm \<times> 'c) run" where
  "genFib_steps 0 yield a b w = Running (a, b) w"
| "genFib_steps (Suc n) yield a b w =
     (case yield a w of (ok, w') \<Rightarrow>
        if \<not> ok then Returned w'
        else genFib_steps n yield b (a + b) w')"

definition genFib_prefix ::
  "nat \<Rightarrow> ('w::len word, 'm, 'c) yield \<Rightarrow> 'm \<times> 'c \<Rightarrow> ('w word \<times> 'w word, 'm \<times> 'c) run" where
  "genFib_prefix n yield w = genFib_steps n yield 1 1 w"

subsection \<open>Well-formed lists\<close>

text \<open>
  \<open>chain h p as\<close>: following \<^verbatim>\<open>next\<close> pointers from \<open>p\<close> in the cells \<open>h\<close> visits
  exactly the nodes \<open>as\<close>, in this order, and then reaches \<^verbatim>\<open>nil\<close>.
\<close>

fun chain :: "(ref \<Rightarrow> 'a element) \<Rightarrow> ref option \<Rightarrow> ref list \<Rightarrow> bool" where
  "chain h p [] = (p = None)"
| "chain h p (a # as) = (p = Some a \<and> chain h (nxt (h a)) as)"

text \<open>The values held by the nodes \<open>as\<close>.\<close>

definition elements :: "'a memory \<Rightarrow> ref list \<Rightarrow> 'a list" where
  "elements m as = map (\<lambda>a. val (cells m a)) as"

text \<open>
  The header at \<open>lst\<close> is a well-formed list with nodes \<open>as\<close>: \<^verbatim>\<open>head\<close> starts the
  chain \<open>as\<close>, the nodes are pairwise different and were all handed out by the
  allocator, and \<^verbatim>\<open>tail\<close> is \<^verbatim>\<open>nil\<close> for the empty chain and the last node otherwise.
\<close>

definition wf_List :: "'a memory \<Rightarrow> ref \<Rightarrow> ref list \<Rightarrow> bool" where
  "wf_List m lst as \<longleftrightarrow>
     chain (cells m) (head (headers m lst)) as \<and>
     distinct as \<and>
     list_all (\<lambda>a. a < allocated m) as \<and>
     tail (headers m lst) = (if as = [] then None else Some (last as))"

subsection \<open>Fibonacci numbers\<close>

text \<open>The mathematical sequence with \<open>F(1) = F(2) = 1\<close>, and a linear-time
  computation of it used to evaluate large members.\<close>

fun fib :: "nat \<Rightarrow> nat" where
  "fib 0 = 0"
| "fib (Suc 0) = 1"
| "fib (Suc (Suc n)) = fib (Suc n) + fib n"

fun fib_from :: "nat \<Rightarrow> nat \<Rightarrow> nat \<Rightarrow> nat" where
  "fib_from x y 0 = x"
| "fib_from x y (Suc n) = fib_from y (x + y) n"

subsection \<open>Predicates and drivers used to state the properties\<close>

text \<open>A consumer that never writes to the store: whatever it is called with, the
  store it leaves is the store it found.\<close>

definition keeps_memory :: "('v, 'm, 'c) yield \<Rightarrow> bool" where
  "keeps_memory yield \<longleftrightarrow> (\<forall>v w. fst (snd (yield v w)) = fst w)"

text \<open>A consumer that does write to the store: it captures \<^verbatim>\<open>lst\<close>, calls
  \<^verbatim>\<open>lst.Push(x)\<close> and returns \<^verbatim>\<open>false\<close>.\<close>

definition pusher :: "ref \<Rightarrow> 'a \<Rightarrow> ('a, 'a memory, 'c) yield" where
  "pusher lst x v w = (False, Push lst x (fst w), snd w)"

text \<open>
  The invariant of the data model, as the spec words it: \<^verbatim>\<open>tail\<close> is \<^verbatim>\<open>nil\<close> exactly
  when \<^verbatim>\<open>head\<close> is \<^verbatim>\<open>nil\<close>; otherwise the nodes reached from \<^verbatim>\<open>head\<close> form a chain
  that ends in \<^verbatim>\<open>nil\<close>, \<^verbatim>\<open>tail\<close> points at its last node, the \<^verbatim>\<open>next\<close> of that node is
  \<^verbatim>\<open>nil\<close>, and no other node of the chain has a \<^verbatim>\<open>nil\<close> \<^verbatim>\<open>next\<close>.
\<close>

definition tail_invariant :: "'a memory \<Rightarrow> ref \<Rightarrow> bool" where
  "tail_invariant m lst \<longleftrightarrow>
     (tail (headers m lst) = None \<longleftrightarrow> head (headers m lst) = None) \<and>
     (head (headers m lst) \<noteq> None \<longrightarrow>
        (\<exists>as. chain (cells m) (head (headers m lst)) as \<and>
              tail (headers m lst) = Some (last as) \<and>
              nxt (cells m (last as)) = None \<and>
              (\<forall>a \<in> set as. nxt (cells m a) = None \<longrightarrow> a = last as)))"

text \<open>The \<open>n\<close>-th value \<^verbatim>\<open>genFib\<close> produces: the value of the last invocation when
  the generator is driven by the consumer that stops at its \<open>n\<close>-th invocation
  (\<open>None\<close> if that run does not return).\<close>

definition nth_produced :: "nat \<Rightarrow> 'm \<Rightarrow> 'w::len word option" where
  "nth_produced n m =
     map_option (\<lambda>w. fst (last (calls w))) (genFib (observe (count_to n)) (m, 0, []))"

section \<open>Properties\<close>

subsection \<open>Chains and Push\<close>

lemma chain_update_other:
  "a \<notin> set as \<Longrightarrow> chain (h(a := x)) p as = chain h p as"
  by (induction as arbitrary: p) auto

lemma chain_None: "chain h None as = (as = [])"
  by (cases as) auto

lemma chain_last_nil:
  "chain h p as \<Longrightarrow> as \<noteq> [] \<Longrightarrow> nxt (h (last as)) = None"
  by (induction as arbitrary: p) (auto split: if_splits)

lemma chain_nil_last:
  "chain h p as \<Longrightarrow> a \<in> set as \<Longrightarrow> nxt (h a) = None \<Longrightarrow> a = last as"
  by (induction as arbitrary: p) (auto simp: chain_None split: if_splits)

lemma chain_unique:
  "chain h p as \<Longrightarrow> chain h p bs \<Longrightarrow> as = bs"
proof (induction as arbitrary: p bs)
  case Nil
  then show ?case by (cases bs) auto
next
  case (Cons a as)
  then show ?case by (cases bs) auto
qed

lemma chain_snoc:
  "chain h p as \<Longrightarrow> as \<noteq> [] \<Longrightarrow> distinct as \<Longrightarrow> b \<notin> set as \<Longrightarrow>
   chain (h(b := \<lparr>nxt = None, val = v\<rparr>, last as := (h (last as))\<lparr>nxt := Some b\<rparr>)) p (as @ [b])"
proof (induction as arbitrary: p)
  case Nil
  then show ?case by simp
next
  case (Cons a as)
  show ?case
  proof (cases "as = []")
    case True
    with Cons.prems show ?thesis by auto
  next
    case False
    with Cons show ?thesis by auto
  qed
qed

lemma Push_empty:
  assumes "wf_List m lst []"
  shows "wf_List (Push lst v m) lst [allocated m]"
    and "elements (Push lst v m) [allocated m] = [v]"
  using assms
  by (simp_all add: wf_List_def Push_def new_element_def set_head_def set_tail_def elements_def)

lemma Push_nonempty:
  assumes "wf_List m lst as" "as \<noteq> []"
  shows "wf_List (Push lst v m) lst (as @ [allocated m])"
    and "elements (Push lst v m) (as @ [allocated m]) = elements m as @ [v]"
proof -
  from assms have t: "tail (headers m lst) = Some (last as)"
    and ch: "chain (cells m) (head (headers m lst)) as"
    and d: "distinct as" and al: "list_all (\<lambda>a. a < allocated m) as"
    by (simp_all add: wf_List_def)
  from al have fresh: "allocated m \<notin> set as"
    by (auto simp: list_all_iff)
  from al assms(2) have neq: "last as \<noteq> allocated m"
    using fresh last_in_set by metis
  have ch': "chain ((cells m)(allocated m := \<lparr>nxt = None, val = v\<rparr>,
               last as := ((cells m) (last as))\<lparr>nxt := Some (allocated m)\<rparr>))
             (head (headers m lst)) (as @ [allocated m])"
    by (rule chain_snoc [OF ch assms(2) d fresh])
  show "wf_List (Push lst v m) lst (as @ [allocated m])"
    using ch' t d fresh al neq
    by (simp add: wf_List_def Push_def new_element_def set_next_def set_tail_def
        list_all_iff less_Suc_eq)
  show "elements (Push lst v m) (as @ [allocated m]) = elements m as @ [v]"
    using t fresh neq
    by (auto simp add: elements_def Push_def new_element_def set_next_def set_tail_def)
qed

subsection \<open>The list iterator and its bounded prefixes\<close>

lemma All_steps_Returned:
  "All_steps n yield e w = Returned w' \<Longrightarrow> All_loop yield e w = Some w'"
proof (induction n arbitrary: e w)
  case 0
  then show ?case by simp
next
  case (Suc n)
  then show ?case
    by (subst All_loop.simps) (auto split: option.splits prod.splits if_splits)
qed

lemma All_steps_Running:
  "All_steps n yield e w = Running e' w' \<Longrightarrow> All_loop yield e w = All_loop yield e' w'"
proof (induction n arbitrary: e w)
  case 0
  then show ?case by simp
next
  case (Suc n)
  then show ?case
    by (subst All_loop.simps) (auto split: option.splits prod.splits if_splits)
qed

lemma All_loop_Some:
  assumes "All_loop yield e w = Some w'"
  shows "\<exists>n. All_steps n yield e w = Returned w'"
  using assms
proof (induction rule: All_loop.raw_induct[rotated 1, consumes 1])
  case (1 loop yield e w w')
  show ?case
  proof (cases e)
    case None
    with 1(2) have "All_steps (Suc 0) yield e w = Returned w'" by simp
    then show ?thesis by blast
  next
    case (Some a)
    obtain ok w1 where y: "yield (val (cells (fst w) a)) w = (ok, w1)"
      by (cases "yield (val (cells (fst w) a)) w") auto
    show ?thesis
    proof (cases ok)
      case False
      with 1(2) Some y have "All_steps (Suc 0) yield e w = Returned w'" by simp
      then show ?thesis by blast
    next
      case True
      with 1(2) Some y have "loop yield (nxt (cells (fst w1) a)) w1 = Some w'" by simp
      from 1(1)[OF this] obtain n where "All_steps n yield (nxt (cells (fst w1) a)) w1 = Returned w'"
        by blast
      with True Some y have "All_steps (Suc n) yield e w = Returned w'" by simp
      then show ?thesis by blast
    qed
  qed
qed

subsection \<open>The generator and its bounded prefixes; observed logs\<close>

lemma genFib_steps_Returned:
  "genFib_steps n yield a b w = Returned w' \<Longrightarrow> genFib_loop yield a b w = Some w'"
proof (induction n arbitrary: a b w)
  case 0
  then show ?case by simp
next
  case (Suc n)
  then show ?case
    by (subst genFib_loop.simps) (auto split: prod.splits if_splits)
qed

lemma genFib_loop_Some:
  assumes "genFib_loop yield a b w = Some w'"
  shows "\<exists>n. genFib_steps n yield a b w = Returned w'"
  using assms
proof (induction rule: genFib_loop.raw_induct[rotated 1, consumes 1])
  case (1 loop yield a b w w')
  obtain ok w1 where y: "yield a w = (ok, w1)"
    by (cases "yield a w") auto
  show ?case
  proof (cases ok)
    case False
    with 1(2) y have "genFib_steps (Suc 0) yield a b w = Returned w'" by simp
    then show ?thesis by blast
  next
    case True
    with 1(2) y have "loop yield b (a + b) w1 = Some w'" by simp
    from 1(1)[OF this] obtain n where "genFib_steps n yield b (a + b) w1 = Returned w'"
      by blast
    with True y have "genFib_steps (Suc n) yield a b w = Returned w'" by simp
    then show ?thesis by blast
  qed
qed

lemma genFib_steps_add:
  "genFib_steps n yield a b w = Running (a', b') w' \<Longrightarrow>
   genFib_steps (n + k) yield a b w = genFib_steps k yield a' b' w'"
  by (induction n arbitrary: a b w) (auto split: prod.splits if_splits)

lemma All_steps_add:
  "All_steps n yield e w = Running e' w' \<Longrightarrow>
   All_steps (n + k) yield e w = All_steps k yield e' w'"
  by (induction n arbitrary: e w) (auto split: option.splits prod.splits if_splits)

lemma observe_apply:
  "observe yield v (m, c, log) =
     (fst (yield v (m, c)), fst (snd (yield v (m, c))), snd (snd (yield v (m, c))),
      log @ [(v, fst (yield v (m, c)))])"
  by (simp add: observe_def split: prod.splits)

lemma All_steps_log:
  "\<exists>l. calls (world_of (All_steps n (observe yield) e (m, c, log0))) = log0 @ l \<and>
       length l \<le> n \<and> list_all snd (butlast l) \<and>
       (case All_steps n (observe yield) e (m, c, log0) of
          Running _ _ \<Rightarrow> length l = n \<and> list_all snd l
        | Returned _ \<Rightarrow> True)"
proof (induction n arbitrary: e m c log0)
  case 0
  then show ?case by (simp add: calls_def)
next
  case (Suc n)
  show ?case
  proof (cases e)
    case None
    then show ?thesis by (simp add: calls_def)
  next
    case (Some a)
    define v where "v = val (cells m a)"
    define ok where "ok = fst (yield v (m, c))"
    define m1 where "m1 = fst (snd (yield v (m, c)))"
    define c1 where "c1 = snd (snd (yield v (m, c)))"
    have ob: "observe yield v (m, c, log0) = (ok, m1, c1, log0 @ [(v, ok)])"
      by (simp add: observe_apply ok_def m1_def c1_def)
    show ?thesis
    proof (cases ok)
      case False
      with Some ob show ?thesis
        by (simp add: v_def [symmetric] calls_def)
    next
      case True
      from Suc.IH [of "nxt (cells m1 a)" m1 c1 "log0 @ [(v, ok)]"]
      obtain l where l: "calls (world_of (All_steps n (observe yield) (nxt (cells m1 a))
               (m1, c1, log0 @ [(v, ok)]))) = (log0 @ [(v, ok)]) @ l"
        "length l \<le> n" "list_all snd (butlast l)"
        "(case All_steps n (observe yield) (nxt (cells m1 a)) (m1, c1, log0 @ [(v, ok)]) of
          Running _ _ \<Rightarrow> length l = n \<and> list_all snd l
        | Returned _ \<Rightarrow> True)"
        by blast
      have st: "All_steps (Suc n) (observe yield) e (m, c, log0) =
            All_steps n (observe yield) (nxt (cells m1 a)) (m1, c1, log0 @ [(v, ok)])"
        using Some ob True by (simp add: v_def [symmetric])
      show ?thesis
        unfolding st using l True
        by (intro exI [of _ "(v, ok) # l"]) (auto split: run.splits)
    qed
  qed
qed

subsection \<open>The values the generator passes\<close>

lemma genFib_steps_log:
  "\<exists>l. calls (world_of (genFib_steps n (observe yield) (of_nat (fib (Suc k)))
             (of_nat (fib (Suc (Suc k)))) (m, c, log0))) = log0 @ l \<and>
       length l \<le> n \<and> list_all snd (butlast l) \<and>
       map fst l = map (\<lambda>i. of_nat (fib (Suc (k + i)))) [0..<length l] \<and>
       (case genFib_steps n (observe yield) (of_nat (fib (Suc k)))
               (of_nat (fib (Suc (Suc k)))) (m, c, log0) of
          Running _ _ \<Rightarrow> length l = n \<and> list_all snd l
        | Returned _ \<Rightarrow> l \<noteq> [] \<and> \<not> snd (last l))"
proof (induction n arbitrary: k m c log0)
  case 0
  then show ?case by (simp add: calls_def)
next
  case (Suc n)
  define a :: "'a word" where "a = of_nat (fib (Suc k))"
  define b :: "'a word" where "b = of_nat (fib (Suc (Suc k)))"
  define ok where "ok = fst (yield a (m, c))"
  define m1 where "m1 = fst (snd (yield a (m, c)))"
  define c1 where "c1 = snd (snd (yield a (m, c)))"
  have ob: "observe yield a (m, c, log0) = (ok, m1, c1, log0 @ [(a, ok)])"
    by (simp add: observe_apply ok_def m1_def c1_def)
  have ab: "a + b = of_nat (fib (Suc (Suc (Suc k))))"
    by (simp add: a_def b_def)
  show ?case
  proof (cases ok)
    case False
    have "genFib_steps (Suc n) (observe yield) a b (m, c, log0) =
            Returned (m1, c1, log0 @ [(a, ok)])"
      using ob False by simp
    then show ?thesis
      unfolding a_def [symmetric] b_def [symmetric] using False
      by (intro exI [of _ "[(a, ok)]"]) (simp add: calls_def a_def)
  next
    case True
    have st: "genFib_steps (Suc n) (observe yield) a b (m, c, log0) =
            genFib_steps n (observe yield) b (of_nat (fib (Suc (Suc (Suc k)))))
              (m1, c1, log0 @ [(a, ok)])"
      using ob True by (simp add: ab)
    from Suc.IH [of "Suc k" m1 c1 "log0 @ [(a, ok)]"]
    obtain l where l: "calls (world_of (genFib_steps n (observe yield) b
              (of_nat (fib (Suc (Suc (Suc k))))) (m1, c1, log0 @ [(a, ok)]))) = (log0 @ [(a, ok)]) @ l"
      "length l \<le> n" "list_all snd (butlast l)"
      "map fst l = map (\<lambda>i. of_nat (fib (Suc (Suc k + i)))) [0..<length l]"
      "(case genFib_steps n (observe yield) b
               (of_nat (fib (Suc (Suc (Suc k))))) (m1, c1, log0 @ [(a, ok)]) of
          Running _ _ \<Rightarrow> length l = n \<and> list_all snd l
        | Returned _ \<Rightarrow> l \<noteq> [] \<and> \<not> snd (last l))"
      unfolding b_def by blast
    show ?thesis
      unfolding a_def [symmetric] b_def [symmetric] st using l True
      by (intro exI [of _ "(a, ok) # l"])
         (auto simp: map_upt_Suc a_def simp del: upt_Suc fib.simps split: run.splits)
  qed
qed

subsection \<open>Walking a well-formed list\<close>

lemma AllElements_loop_chain:
  "chain h e as \<Longrightarrow> AllElements_loop h e acc = Some (acc @ map (\<lambda>a. val (h a)) as)"
proof (induction as arbitrary: e acc)
  case Nil
  then show ?case by (subst AllElements_loop.simps) simp
next
  case (Cons a as)
  then show ?case by (subst AllElements_loop.simps) simp
qed

lemma All_loop_appender:
  "chain (cells m) e as \<Longrightarrow> All_loop appender e (m, acc) = Some (m, acc @ elements m as)"
proof (induction as arbitrary: e acc)
  case Nil
  then show ?case by (subst All_loop.simps) (simp add: elements_def)
next
  case (Cons a as)
  from Cons.prems have e: "e = Some a" and ch: "chain (cells m) (nxt (cells m a)) as"
    by simp_all
  have ap: "appender (val (cells m a)) (m, acc) = (True, m, acc @ [val (cells m a)])"
    by (simp add: appender_def)
  have "All_loop appender e (m, acc) =
          All_loop appender (nxt (cells m a)) (m, acc @ [val (cells m a)])"
    by (subst All_loop.simps) (simp add: e ap)
  also have "\<dots> = Some (m, (acc @ [val (cells m a)]) @ elements m as)"
    by (rule Cons.IH [OF ch])
  finally show ?case by (simp add: elements_def)
qed

lemma All_loop_chain_observed:
  assumes km: "keeps_memory yield"
  shows "chain (cells m) e as \<Longrightarrow>
    \<exists>c' l. All_loop (observe yield) e (m, c, log0) = Some (m, c', log0 @ l) \<and>
      prefix (map fst l) (elements m as) \<and>
      list_all snd (butlast l) \<and>
      (list_all snd l \<longrightarrow> map fst l = elements m as)"
proof (induction as arbitrary: e c log0)
  case Nil
  then show ?case by (subst All_loop.simps) (simp add: elements_def)
next
  case (Cons a as)
  define v where "v = val (cells m a)"
  define ok where "ok = fst (yield v (m, c))"
  define c1 where "c1 = snd (snd (yield v (m, c)))"
  have "fst (snd (yield v (m, c))) = m"
    using km by (simp add: keeps_memory_def)
  then have ob: "observe yield v (m, c, log0) = (ok, m, c1, log0 @ [(v, ok)])"
    by (simp add: observe_apply ok_def c1_def)
  from Cons.prems have e: "e = Some a" and ch: "chain (cells m) (nxt (cells m a)) as"
    by simp_all
  show ?case
  proof (cases ok)
    case False
    have "All_loop (observe yield) e (m, c, log0) = Some (m, c1, log0 @ [(v, ok)])"
      using e ob False by (subst All_loop.simps) (simp add: v_def [symmetric])
    then show ?thesis using False
      by (intro exI [of _ c1] exI [of _ "[(v, ok)]"]) (simp add: elements_def v_def)
  next
    case True
    from Cons.IH [OF ch, of c1 "log0 @ [(v, ok)]"]
    obtain c' l where l: "All_loop (observe yield) (nxt (cells m a)) (m, c1, log0 @ [(v, ok)])
          = Some (m, c', (log0 @ [(v, ok)]) @ l)"
      "prefix (map fst l) (elements m as)" "list_all snd (butlast l)"
      "list_all snd l \<longrightarrow> map fst l = elements m as"
      by blast
    have "All_loop (observe yield) e (m, c, log0) = Some (m, c', log0 @ (v, ok) # l)"
      using e ob True l(1) by (subst All_loop.simps) (simp add: v_def [symmetric])
    then show ?thesis using l(2-) True
      by (intro exI [of _ c'] exI [of _ "(v, ok) # l"]) (auto simp: elements_def v_def)
  qed
qed

lemma chain_suffix:
  "chain h p (xs @ a # ys) \<Longrightarrow> chain h (nxt (h a)) ys"
  by (induction xs arbitrary: p) auto

lemma chain_distinct:
  "chain h p as \<Longrightarrow> distinct as"
proof (induction as arbitrary: p)
  case Nil
  then show ?case by simp
next
  case (Cons a as)
  then have ch: "chain h (nxt (h a)) as" by simp
  have "a \<notin> set as"
  proof
    assume "a \<in> set as"
    then obtain xs ys where as: "as = xs @ a # ys"
      by (auto simp: in_set_conv_decomp)
    with ch have "chain h (nxt (h a)) ys"
      using chain_suffix by metis
    with ch have "as = ys" by (rule chain_unique)
    with as show False by simp
  qed
  with Cons.IH [OF ch] show ?case by simp
qed

lemma allocated_Push: "allocated (Push lst v m) = Suc (allocated m)"
  by (simp add: Push_def new_element_def set_head_def set_tail_def set_next_def
      split: option.splits)

lemma wf_List_Push:
  assumes "wf_List m lst as"
  shows "wf_List (Push lst v m) lst (as @ [allocated m]) \<and>
         elements (Push lst v m) (as @ [allocated m]) = elements m as @ [v]"
proof (cases "as = []")
  case True
  with assms Push_empty [of m lst v] show ?thesis by (simp add: elements_def)
next
  case False
  with assms Push_nonempty [of m lst as v] show ?thesis by simp
qed

lemma wf_List_Pushes:
  "wf_List m lst as \<Longrightarrow>
   wf_List (Pushes lst vs m) lst (as @ [allocated m..<allocated m + length vs]) \<and>
   elements (Pushes lst vs m) (as @ [allocated m..<allocated m + length vs]) = elements m as @ vs"
proof (induction vs arbitrary: m as)
  case Nil
  then show ?case by simp
next
  case (Cons v vs)
  from wf_List_Push [OF Cons.prems, of v]
  have wf: "wf_List (Push lst v m) lst (as @ [allocated m])"
    and el: "elements (Push lst v m) (as @ [allocated m]) = elements m as @ [v]"
    by simp_all
  have up: "[allocated m..<allocated m + length (v # vs)] =
        allocated m # [Suc (allocated m)..<Suc (allocated m) + length vs]"
    using upt_conv_Cons [of "allocated m" "Suc (allocated m + length vs)"]
    by (simp del: upt_Suc)
  from Cons.IH [OF wf] show ?case
    unfolding up by (simp add: el allocated_Push del: upt_Suc)
qed

lemma wf_List_zero: "headers m lst = zero_List \<Longrightarrow> wf_List m lst []"
  by (simp add: wf_List_def zero_List_def)

lemma Collect_All_wf:
  "wf_List m lst as \<Longrightarrow> slices_Collect (List_All lst) m = Some (elements m as)"
  using All_loop_appender [of m "head (headers m lst)" as "[]"]
  by (simp add: slices_Collect_def List_All_def wf_List_def)

lemma AllElements_wf:
  "wf_List m lst as \<Longrightarrow> AllElements lst m = Some (elements m as)"
  using AllElements_loop_chain [of "cells m" "head (headers m lst)" as "[]"]
  by (simp add: AllElements_def wf_List_def elements_def)

subsection \<open>The invariant of the data model\<close>

lemma wf_List_tail_invariant:
  assumes "wf_List m lst as"
  shows "tail_invariant m lst"
proof (cases "as = []")
  case True
  with assms show ?thesis by (simp add: wf_List_def tail_invariant_def)
next
  case False
  from assms have ch: "chain (cells m) (head (headers m lst)) as"
    and t: "tail (headers m lst) = Some (last as)"
    using False by (simp_all add: wf_List_def)
  from ch False have h: "head (headers m lst) \<noteq> None"
    by (cases as) auto
  have "nxt (cells m (last as)) = None"
    by (rule chain_last_nil [OF ch False])
  moreover have "\<forall>a \<in> set as. nxt (cells m a) = None \<longrightarrow> a = last as"
    using chain_nil_last [OF ch] by blast
  ultimately show ?thesis
    using ch t h unfolding tail_invariant_def by auto
qed

lemma wf_List_iff:
  "wf_List m lst as \<longleftrightarrow>
     chain (cells m) (head (headers m lst)) as \<and> tail_invariant m lst \<and>
     list_all (\<lambda>a. a < allocated m) as"
proof
  assume "wf_List m lst as"
  then show "chain (cells m) (head (headers m lst)) as \<and> tail_invariant m lst \<and>
     list_all (\<lambda>a. a < allocated m) as"
    using wf_List_tail_invariant by (auto simp: wf_List_def)
next
  assume r: "chain (cells m) (head (headers m lst)) as \<and> tail_invariant m lst \<and>
     list_all (\<lambda>a. a < allocated m) as"
  then have ch: "chain (cells m) (head (headers m lst)) as" and ti: "tail_invariant m lst"
    and al: "list_all (\<lambda>a. a < allocated m) as" by simp_all
  have d: "distinct as" by (rule chain_distinct [OF ch])
  have "tail (headers m lst) = (if as = [] then None else Some (last as))"
  proof (cases "as = []")
    case True
    with ch ti show ?thesis by (simp add: tail_invariant_def)
  next
    case False
    with ch have h: "head (headers m lst) \<noteq> None" by (cases as) auto
    with ti obtain bs where bs: "chain (cells m) (head (headers m lst)) bs"
      "tail (headers m lst) = Some (last bs)"
      unfolding tail_invariant_def by blast
    from chain_unique [OF ch bs(1)] bs(2) False show ?thesis by simp
  qed
  with ch d al show "wf_List m lst as" by (simp add: wf_List_def)
qed

section \<open>The claims\<close>

text \<open>
  Claim C10. The zero value \<^verbatim>\<open>List[T]{}\<close> (head and tail both \<^verbatim>\<open>nil\<close>) is a valid
  empty chain that needs no constructor: it is well formed with no nodes, and
  \<^verbatim>\<open>AllElements\<close> and the collected walk give the empty list. The first \<^verbatim>\<open>Push\<close> on
  it sees \<^verbatim>\<open>tail == nil\<close>, runs the first branch, and leaves \<^verbatim>\<open>head\<close> and \<^verbatim>\<open>tail\<close>
  pointing at the same, freshly allocated node, whose \<^verbatim>\<open>next\<close> is \<^verbatim>\<open>nil\<close> and whose
  value is the pushed one.
\<close>

theorem zero_value_is_empty_list:
  assumes "headers m lst = zero_List"
  shows "wf_List m lst [] \<and> AllElements lst m = Some [] \<and> slices_Collect (List_All lst) m = Some [] \<and>
         tail (headers m lst) = None \<and>
         Push lst v m =
           (case new_element v m of (p, m1) \<Rightarrow>
              let m2 = set_head lst (Some p) m1 in set_tail lst (head (headers m2 lst)) m2) \<and>
         head (headers (Push lst v m) lst) = Some (allocated m) \<and>
         tail (headers (Push lst v m) lst) = Some (allocated m) \<and>
         cells (Push lst v m) (allocated m) = \<lparr>nxt = None, val = v\<rparr> \<and>
         wf_List (Push lst v m) lst [allocated m]"
proof -
  have wf: "wf_List m lst []" by (rule wf_List_zero [OF assms])
  have t: "tail (headers m lst) = None" using assms by (simp add: zero_List_def)
  have "AllElements lst m = Some []"
    using AllElements_wf [OF wf] by (simp add: elements_def)
  moreover have "slices_Collect (List_All lst) m = Some []"
    using Collect_All_wf [OF wf] by (simp add: elements_def)
  moreover have "wf_List (Push lst v m) lst [allocated m]"
    using wf_List_Push [OF wf, of v] by simp
  ultimately show ?thesis
    using wf t by (simp add: Push_def new_element_def set_head_def set_tail_def)
qed

theorem zero_value_is_empty_list_witness:
  "headers (empty_memory (0::int)) 0 = zero_List \<and>
   slices_Collect (List_All 0) (empty_memory (0::int)) = Some [] \<and>
   head (headers (Push 0 10 (empty_memory (0::int))) 0) = Some 0 \<and>
   tail (headers (Push 0 10 (empty_memory (0::int))) 0) = Some 0 \<and>
   cells (Push 0 10 (empty_memory (0::int))) 0 = \<lparr>nxt = None, val = 10\<rparr>"
proof -
  have h: "headers (empty_memory (0::int)) 0 = zero_List"
    by (simp add: empty_memory_def)
  have a: "allocated (empty_memory (0::int)) = 0"
    by (simp add: empty_memory_def)
  from zero_value_is_empty_list [OF h, of 10] show ?thesis
    unfolding a using h by blast
qed

subsection \<open>The List\<close>

lemma empty_memory_simps:
  "headers (empty_memory d) lst = zero_List" "allocated (empty_memory d) = 0"
  by (simp_all add: empty_memory_def)

lemma wf_List_Pushes_empty_memory:
  "wf_List (Pushes lst vs (empty_memory d)) lst [0..<length vs] \<and>
   elements (Pushes lst vs (empty_memory d)) [0..<length vs] = vs"
proof -
  have "wf_List (empty_memory d) lst []"
    by (rule wf_List_zero) (rule empty_memory_simps)
  from wf_List_Pushes [OF this, of vs] show ?thesis
    by (simp add: empty_memory_simps elements_def)
qed

text \<open>
  Claim C4. Every List reached from the zero-valued header by a sequence of \<^verbatim>\<open>Push\<close>
  calls satisfies the invariant of the data model (\<open>tail_invariant\<close>: \<^verbatim>\<open>tail\<close> is
  \<^verbatim>\<open>nil\<close> exactly when \<^verbatim>\<open>head\<close> is, and otherwise \<^verbatim>\<open>tail\<close> is the one node of the
  chain from \<^verbatim>\<open>head\<close> whose \<^verbatim>\<open>next\<close> is \<^verbatim>\<open>nil\<close>); its nodes are the ones allocated
  by these calls, in order. \<^verbatim>\<open>Push\<close> preserves the invariant: from any store in
  which the invariant holds for the chain \<open>as\<close> of allocated nodes, \<^verbatim>\<open>Push\<close> leads to
  a store in which it holds for the chain \<open>as\<close> extended by the new node.
\<close>

theorem Push_keeps_tail_invariant:
  "(headers m lst = zero_List \<longrightarrow>
      tail_invariant (Pushes lst vs m) lst \<and>
      wf_List (Pushes lst vs m) lst [allocated m..<allocated m + length vs]) \<and>
   (chain (cells m) (head (headers m lst)) as \<and> tail_invariant m lst \<and>
    list_all (\<lambda>a. a < allocated m) as \<longrightarrow>
      chain (cells (Push lst v m)) (head (headers (Push lst v m) lst)) (as @ [allocated m]) \<and>
      tail_invariant (Push lst v m) lst \<and>
      list_all (\<lambda>a. a < allocated (Push lst v m)) (as @ [allocated m]))"
proof (intro conjI impI)
  assume "headers m lst = zero_List"
  then have "wf_List m lst []" by (rule wf_List_zero)
  from wf_List_Pushes [OF this, of vs]
  show wf: "wf_List (Pushes lst vs m) lst [allocated m..<allocated m + length vs]"
    by simp
  then show "tail_invariant (Pushes lst vs m) lst"
    by (rule wf_List_tail_invariant)
next
  assume "chain (cells m) (head (headers m lst)) as \<and> tail_invariant m lst \<and>
    list_all (\<lambda>a. a < allocated m) as"
  then have "wf_List m lst as" by (simp add: wf_List_iff)
  from wf_List_Push [OF this, of v]
  have wf: "wf_List (Push lst v m) lst (as @ [allocated m])" by simp
  then show "chain (cells (Push lst v m)) (head (headers (Push lst v m) lst)) (as @ [allocated m])"
    and "tail_invariant (Push lst v m) lst"
    and "list_all (\<lambda>a. a < allocated (Push lst v m)) (as @ [allocated m])"
    unfolding wf_List_iff by blast+
qed

theorem Push_keeps_tail_invariant_witness:
  "headers (empty_memory (0::int)) 0 = zero_List \<and>
   tail_invariant (Pushes 0 [10, 13, 23] (empty_memory (0::int))) 0 \<and>
   chain (cells (Pushes 0 [10, 13] (empty_memory (0::int))))
     (head (headers (Pushes 0 [10, 13] (empty_memory (0::int))) 0)) [0, 1] \<and>
   tail_invariant (Pushes 0 [10, 13] (empty_memory (0::int))) 0 \<and>
   list_all (\<lambda>a. a < allocated (Pushes 0 [10, 13] (empty_memory (0::int)))) [0, 1] \<and>
   tail_invariant (Push 0 23 (Pushes 0 [10, 13] (empty_memory (0::int)))) 0 \<and>
   chain (cells (Push 0 23 (Pushes 0 [10, 13] (empty_memory (0::int)))))
     (head (headers (Push 0 23 (Pushes 0 [10, 13] (empty_memory (0::int)))) 0)) [0, 1, 2]"
proof -
  define m0 where "m0 = empty_memory (0::int)"
  define m2 where "m2 = Pushes 0 [10, 13] m0"
  have h: "headers m0 0 = zero_List" by (simp add: m0_def empty_memory_simps)
  have a0: "allocated m0 = 0" by (simp add: m0_def empty_memory_simps)
  have t3: "tail_invariant (Pushes 0 [10, 13, 23] m0) 0"
    using Push_keeps_tail_invariant [of m0 0 "[10, 13, 23]"] h by blast
  have "wf_List m2 0 [0..<length [10, 13 :: int]]"
    unfolding m2_def m0_def using wf_List_Pushes_empty_memory [of 0 "[10, 13]" 0] by blast
  then have wf2: "wf_List m2 0 [0, 1]" by (simp add: upt_rec)
  then have hyp: "chain (cells m2) (head (headers m2 0)) [0, 1] \<and> tail_invariant m2 0 \<and>
      list_all (\<lambda>a. a < allocated m2) [0, 1]"
    unfolding wf_List_iff .
  have a2: "allocated m2 = 2"
    unfolding m2_def by (simp add: allocated_Push a0)
  from Push_keeps_tail_invariant [of m2 0 "[]" "[0, 1]" 23] hyp
  have "chain (cells (Push 0 23 m2)) (head (headers (Push 0 23 m2) 0)) ([0, 1] @ [allocated m2]) \<and>
      tail_invariant (Push 0 23 m2) 0"
    by blast
  then have c3: "chain (cells (Push 0 23 m2)) (head (headers (Push 0 23 m2) 0)) [0, 1, 2] \<and>
      tail_invariant (Push 0 23 m2) 0"
    by (simp add: a2)
  show ?thesis
    using h t3 hyp c3 unfolding m2_def m0_def by blast
qed

text \<open>
  Claim C5. \<^verbatim>\<open>Push\<close> is a pure append. For a well-formed List whose element sequence
  is \<open>elements m as\<close> (which is what \<^verbatim>\<open>AllElements\<close> returns and what the walk of \<^verbatim>\<open>All\<close>
  collects), after \<^verbatim>\<open>Push(v)\<close> both give that sequence followed by \<open>v\<close>: the length
  grows by one, and the earlier values keep their order and their place at the front.
  The earlier nodes stay the nodes of the list, each with its value.
\<close>

theorem Push_is_append:
  assumes "wf_List m lst as"
  shows "AllElements lst m = Some (elements m as) \<and>
         slices_Collect (List_All lst) m = Some (elements m as) \<and>
         AllElements lst (Push lst v m) = Some (elements m as @ [v]) \<and>
         slices_Collect (List_All lst) (Push lst v m) = Some (elements m as @ [v]) \<and>
         wf_List (Push lst v m) lst (as @ [allocated m]) \<and>
         elements (Push lst v m) as = elements m as"
proof -
  from wf_List_Push [OF assms, of v]
  have wf: "wf_List (Push lst v m) lst (as @ [allocated m])"
    and el: "elements (Push lst v m) (as @ [allocated m]) = elements m as @ [v]"
    by simp_all
  from el have "elements (Push lst v m) as = elements m as"
    by (simp add: elements_def)
  then show ?thesis
    using AllElements_wf [OF assms] Collect_All_wf [OF assms]
      AllElements_wf [OF wf] Collect_All_wf [OF wf] wf el
    by simp
qed

theorem Push_is_append_witness:
  "wf_List (Pushes 0 [10, 13] (empty_memory (0::int))) 0 [0, 1] \<and>
   AllElements 0 (Pushes 0 [10, 13] (empty_memory (0::int))) = Some [10, 13] \<and>
   AllElements 0 (Push 0 23 (Pushes 0 [10, 13] (empty_memory (0::int)))) = Some [10, 13, 23] \<and>
   slices_Collect (List_All 0) (Push 0 23 (Pushes 0 [10, 13] (empty_memory (0::int))))
     = Some [10, 13, 23]"
proof -
  define m2 where "m2 = Pushes 0 [10, 13] (empty_memory (0::int))"
  have "wf_List m2 0 [0..<length [10, 13 :: int]] \<and> elements m2 [0..<length [10, 13 :: int]] = [10, 13]"
    unfolding m2_def by (rule wf_List_Pushes_empty_memory)
  then have wf2: "wf_List m2 0 [0, 1]" and el: "elements m2 [0, 1] = [10, 13]"
    by (simp_all add: upt_rec)
  from Push_is_append [OF wf2, of 23] show ?thesis
    unfolding el m2_def [symmetric] using wf2 by simp
qed

text \<open>
  Claim C1. For every sequence \<open>vs\<close> of values pushed into an initially empty List,
  collecting the walk of \<^verbatim>\<open>All\<close> returns exactly \<open>vs\<close>, in order. The witness is the
  scenario of the program: pushing 10, 13, 23 collects \<open>[10, 13, 23]\<close>, and the walk of
  the empty List collects the empty list.
\<close>

theorem collect_walk_is_pushed_sequence:
  assumes "headers m lst = zero_List"
  shows "slices_Collect (List_All lst) (Pushes lst vs m) = Some vs"
proof -
  have "wf_List m lst []" by (rule wf_List_zero [OF assms])
  from wf_List_Pushes [OF this, of vs]
  have wf: "wf_List (Pushes lst vs m) lst [allocated m..<allocated m + length vs]"
    and el: "elements (Pushes lst vs m) [allocated m..<allocated m + length vs] = vs"
    by (simp_all add: elements_def)
  from Collect_All_wf [OF wf] el show ?thesis by simp
qed

theorem collect_walk_is_pushed_sequence_witness:
  "headers (empty_memory (0::int)) 0 = zero_List \<and>
   slices_Collect (List_All 0) (Push 0 23 (Push 0 13 (Push 0 10 (empty_memory (0::int)))))
     = Some [10, 13, 23] \<and>
   slices_Collect (List_All 0) (empty_memory (0::int)) = Some []"
proof -
  have h: "headers (empty_memory (0::int)) 0 = zero_List"
    by (simp add: empty_memory_simps)
  from collect_walk_is_pushed_sequence [OF h, of "[10, 13, 23]"]
    collect_walk_is_pushed_sequence [OF h, of "[]"] h
  show ?thesis by simp
qed

text \<open>
  Claim C9. The iterator returned by \<^verbatim>\<open>All\<close> is a live view, not a snapshot. The
  iterator \<open>it\<close> is obtained first; driven on the store as it is, it yields the
  elements of the List; driven after further values \<open>vs\<close> were pushed, the same
  iterator yields these values too.
\<close>

theorem All_is_a_live_view:
  assumes "wf_List m lst as"
  shows "(let it = List_All lst in
            slices_Collect it m = Some (elements m as) \<and>
            slices_Collect it (Pushes lst vs m) = Some (elements m as @ vs))"
proof -
  from wf_List_Pushes [OF assms, of vs]
  have wf: "wf_List (Pushes lst vs m) lst (as @ [allocated m..<allocated m + length vs])"
    and el: "elements (Pushes lst vs m) (as @ [allocated m..<allocated m + length vs])
               = elements m as @ vs"
    by simp_all
  from Collect_All_wf [OF assms] Collect_All_wf [OF wf] el show ?thesis
    by (simp add: Let_def)
qed

theorem All_is_a_live_view_witness:
  "wf_List (Pushes 0 [10] (empty_memory (0::int))) 0 [0] \<and>
   slices_Collect (List_All 0) (Pushes 0 [10] (empty_memory (0::int))) = Some [10] \<and>
   slices_Collect (List_All 0) (Pushes 0 [13, 23] (Pushes 0 [10] (empty_memory (0::int))))
     = Some [10, 13, 23]"
proof -
  define m1 where "m1 = Pushes 0 [10] (empty_memory (0::int))"
  have "wf_List m1 0 [0..<length [10 :: int]] \<and> elements m1 [0..<length [10 :: int]] = [10]"
    unfolding m1_def by (rule wf_List_Pushes_empty_memory)
  then have wf1: "wf_List m1 0 [0]" and el: "elements m1 [0] = [10]"
    by simp_all
  from All_is_a_live_view [OF wf1, of "[13, 23]"] show ?thesis
    unfolding el m1_def [symmetric] using wf1 by (simp add: Let_def)
qed

end
